theory Spec2Isabelle
  imports Complex_Main "HOL-Library.Word" "HOL-Library.Log_Nat" "HOL-Library.Multiset"
begin

unbundle bit_operations_syntax

section \<open>C types of cbitsets.h\<close>

text \<open>
  \<^verbatim>\<open>typedef unsigned long WORD;\<close> on an LP64 target: \<open>unsigned long\<close> and
  \<open>size_t\<close> have 64 bits, \<open>unsigned\<close> and \<open>int\<close> have 32. Unsigned
  arithmetic wraps, which is what the operations on \<open>'a word\<close> do. An \<open>int\<close>
  is kept by its 32-bit two's complement pattern; converting it to \<open>unsigned\<close>, as a
  call of \<open>bitset_set\<close> with an \<open>int\<close> argument does, leaves the pattern
  unchanged.
\<close>

type_synonym WORD = "64 word"
type_synonym unsigned = "32 word"
type_synonym size_t = "64 word"
type_synonym c_int = "32 word"

text \<open>
  \<^verbatim>\<open>typedef struct { WORD *words; size_t size; } bitset;\<close>
  The array behind \<open>words\<close> is the list of its elements; the field \<open>size\<close> is
  \<open>size'\<close> here. Nothing in the struct ties the two together: the list may be
  shorter or longer than \<open>size'\<close> says.
\<close>

record bitset =
  words :: "WORD list"
  size' :: size_t

text \<open>
  What the C standard leaves undefined and this code can reach: an array access outside
  the array, and a conversion of a floating-point value to an integer type that cannot
  hold its integral part. Allocation is taken to succeed.
\<close>

datatype undefined_behaviour = OutOfBounds | ConversionOutOfRange

section \<open>Double-precision arithmetic\<close>

text \<open>
  \<open>bitset_create\<close> computes the word count in \<open>double\<close>. A finite binary64 value
  is a rational \<open>m * 2 ^ e\<close> with \<open>\<bar>m\<bar> < 2 ^ 53\<close> and \<open>- 1074 \<le> e \<le> 971\<close>;
  \<open>None\<close> stands for the infinities and NaN. \<open>is_double q\<close> decides whether \<open>q\<close>
  is such a value: \<open>q * 2 ^ 1074\<close> must be an integer whose magnitude has at most 53
  significant bits above its trailing zeros and at most 2098 bits in all.

  IEEE 754 arithmetic and C's integer-to-floating conversion deliver the exact result
  whenever it is representable, in every rounding mode. What happens to an inexact result
  depends on the rounding mode in force; it is the parameter \<open>rnd\<close> of every operation
  below, about which nothing is assumed.
\<close>

type_synonym double = "rat option"

definition is_double :: "rat \<Rightarrow> bool" where
  "is_double q =
     (let N = q * 2 ^ 1074; n = \<bar>\<lfloor>N\<rfloor>\<bar>; L = bitlen n in
      N = of_int \<lfloor>N\<rfloor> \<and> L \<le> 2098 \<and> (if L \<le> 53 then True else 2 ^ nat (L - 53) dvd n))"

text \<open>The double delivered for an operation whose exact result is \<open>q\<close>.\<close>

definition fl :: "(rat \<Rightarrow> double) \<Rightarrow> rat \<Rightarrow> double" where
  "fl rnd q = (if is_double q then Some q else rnd q)"

text \<open>\<^verbatim>\<open>(double)num_bits\<close>, and the conversion of \<open>bits_per_word\<close> for the division.\<close>

definition double_of_unsigned :: "(rat \<Rightarrow> double) \<Rightarrow> unsigned \<Rightarrow> double" where
  "double_of_unsigned rnd n = fl rnd (of_nat (unat n))"

text \<open>The operator \<open>/\<close> on doubles; a zero divisor gives an infinity or NaN.\<close>

definition double_div :: "(rat \<Rightarrow> double) \<Rightarrow> double \<Rightarrow> double \<Rightarrow> double" where
  "double_div rnd x y =
     (case (x, y) of
        (Some a, Some b) \<Rightarrow> if b = 0 then None else fl rnd (a / b)
      | _ \<Rightarrow> None)"

text \<open>\<open>ceil\<close> of math.h: the least integral value not below its argument, always exact.\<close>

definition ceil :: "double \<Rightarrow> double" where
  "ceil x = map_option (\<lambda>a. of_int \<lceil>a\<rceil>) x"

text \<open>
  The assignment \<^verbatim>\<open>set->size = ceil(...)\<close> converts a double to \<open>size_t\<close>: the
  fraction is dropped (truncation towards zero), and the behaviour is undefined when the
  integral part is not a value of \<open>size_t\<close>, that is, unless the double lies strictly
  between \<open>- 1\<close> and \<open>2 ^ 64\<close>.
\<close>

definition size_t_of_double :: "double \<Rightarrow> undefined_behaviour + size_t" where
  "size_t_of_double x =
     (case x of
        None \<Rightarrow> Inl ConversionOutOfRange
      | Some a \<Rightarrow>
          if - 1 < a \<and> a < 2 ^ 64
          then Inr (word_of_int (if a < 0 then \<lceil>a\<rceil> else \<lfloor>a\<rfloor>))
          else Inl ConversionOutOfRange)"

section \<open>The operations of cbitsets.c\<close>

text \<open>\<^verbatim>\<open>sizeof(WORD)\<close>, a \<open>size_t\<close>: eight bytes.\<close>

definition sizeof_WORD :: size_t where
  "sizeof_WORD = 8"

text \<open>\<^verbatim>\<open>unsigned bits_per_word = sizeof(WORD) * 8;\<close>\<close>

definition bits_per_word :: unsigned where
  "bits_per_word = ucast (sizeof_WORD * 8)"

text \<open>\<^verbatim>\<open>calloc(n, sizeof(WORD))\<close>: an array of \<open>n\<close> words, all zero.\<close>

definition calloc :: "size_t \<Rightarrow> WORD list" where
  "calloc n = replicate (unat n) 0"

text \<open>
  \<^verbatim>\<open>
  bitset* bitset_create(unsigned num_bits){
      bitset* set = malloc(sizeof(bitset));
      unsigned bits_per_word = sizeof(WORD) * 8;
      set->size = ceil((double)num_bits / bits_per_word);
      set->words = calloc(set->size, sizeof(WORD));
      return set;
  }
  \<close>
\<close>

definition bitset_create :: "(rat \<Rightarrow> double) \<Rightarrow> unsigned \<Rightarrow> undefined_behaviour + bitset" where
  "bitset_create rnd num_bits =
     (case size_t_of_double
             (ceil (double_div rnd (double_of_unsigned rnd num_bits)
                                   (double_of_unsigned rnd bits_per_word))) of
        Inl e \<Rightarrow> Inl e
      | Inr sz \<Rightarrow> Inr \<lparr>words = calloc sz, size' = sz\<rparr>)"

text \<open>
  \<^verbatim>\<open>
  void bitset_set(bitset* set, unsigned index){
      unsigned bits_per_word = sizeof(WORD) * 8;
      unsigned word_index = index / bits_per_word;
      unsigned bit_index = index % bits_per_word;
      set->words[word_index] |= (1UL << bit_index);
  }
  \<close>
  The function mutates \<open>*set\<close>; the model returns the bitset after the call. The access
  \<open>set->words[word_index]\<close> is not checked against \<open>size\<close>: outside the array it is
  undefined behaviour.
\<close>

definition bitset_set :: "bitset \<Rightarrow> unsigned \<Rightarrow> undefined_behaviour + bitset" where
  "bitset_set s index =
     (let word_index = index div bits_per_word;
          bit_index = index mod bits_per_word
      in if unat word_index < length (words s)
         then Inr (s\<lparr>words := (words s)[unat word_index :=
                      words s ! unat word_index OR push_bit (unat bit_index) 1]\<rparr>)
         else Inl OutOfBounds)"

text \<open>
  \<^verbatim>\<open>
  void bitset_fill(bitset* set, int* indices, unsigned num_indices){
      for(unsigned i = 0; i < num_indices; i++){
          bitset_set(set, indices[i]);
      }
  }
  \<close>
  The loop at counter \<open>i\<close>. Counter and bound are both \<open>unsigned\<close>, so the counter
  reaches the bound without wrapping.
\<close>

function bitset_fill_loop ::
  "bitset \<Rightarrow> c_int list \<Rightarrow> unsigned \<Rightarrow> unsigned \<Rightarrow> undefined_behaviour + bitset" where
  "bitset_fill_loop s indices num_indices i =
     (if i < num_indices
      then if unat i < length indices
           then (case bitset_set s (indices ! unat i) of
                   Inl e \<Rightarrow> Inl e
                 | Inr s' \<Rightarrow> bitset_fill_loop s' indices num_indices (i + 1))
           else Inl OutOfBounds
      else Inr s)"
  by pat_completeness auto
termination
proof (relation "measure (\<lambda>(s, indices, num_indices, i). unat num_indices - unat i)")
  show "wf (measure (\<lambda>(s, indices, num_indices, i). unat num_indices - unat i))"
    by simp
next
  fix s s' :: bitset and indices :: "c_int list" and num_indices i :: unsigned
  assume "i < num_indices"
  then have below: "Suc (unat i) \<le> unat num_indices"
    by (simp add: word_less_nat_alt)
  also have "unat num_indices < 2 ^ LENGTH(32)"
    by (rule unsigned_less)
  finally have "unat i + unat (1::unsigned) < 2 ^ LENGTH(32)"
    by simp
  then have "unat (i + 1) = unat i + unat (1::unsigned)"
    by (simp only: unat_add_lem [THEN iffD1])
  with below show "((s', indices, num_indices, i + 1), (s, indices, num_indices, i))
      \<in> measure (\<lambda>(s, indices, num_indices, i). unat num_indices - unat i)"
    by simp
qed

definition bitset_fill :: "bitset \<Rightarrow> c_int list \<Rightarrow> unsigned \<Rightarrow> undefined_behaviour + bitset" where
  "bitset_fill s indices num_indices = bitset_fill_loop s indices num_indices 0"

text \<open>
  \<^verbatim>\<open>
  bool is_disjoint(bitset *a, bitset *b){
      for(unsigned i = 0; i < a->size; i++){
          if(a->words[i] & b->words[i]){
              return false;
          }
      }
      return true;
  }
  \<close>
  The counter is \<open>unsigned\<close>, the bound \<open>a->size\<close> is a \<open>size_t\<close>: the comparison
  is made in 64 bits and \<open>i++\<close> wraps at \<open>2 ^ 32\<close>, so with a bound of \<open>2 ^ 32\<close> or
  more the loop need not end. Not returning is the value \<open>None\<close>.
\<close>

partial_function (option) is_disjoint_loop ::
  "bitset \<Rightarrow> bitset \<Rightarrow> unsigned \<Rightarrow> (undefined_behaviour + bool) option" where
  "is_disjoint_loop a b i =
     (if ucast i < size' a
      then if unat i < length (words a) \<and> unat i < length (words b)
           then if words a ! unat i AND words b ! unat i \<noteq> 0
                then Some (Inr False)
                else is_disjoint_loop a b (i + 1)
           else Some (Inl OutOfBounds)
      else Some (Inr True))"

definition is_disjoint :: "bitset \<Rightarrow> bitset \<Rightarrow> (undefined_behaviour + bool) option" where
  "is_disjoint a b = is_disjoint_loop a b 0"

text \<open>
  \<^verbatim>\<open>
  bool not_disjoint(bitset *a, bitset *b){
      for(unsigned i = 0; i < a->size; i++){
          if(a->words[i] & b->words[i]){
              return true;
          }
      }
      return false;
  }
  \<close>
\<close>

partial_function (option) not_disjoint_loop ::
  "bitset \<Rightarrow> bitset \<Rightarrow> unsigned \<Rightarrow> (undefined_behaviour + bool) option" where
  "not_disjoint_loop a b i =
     (if ucast i < size' a
      then if unat i < length (words a) \<and> unat i < length (words b)
           then if words a ! unat i AND words b ! unat i \<noteq> 0
                then Some (Inr True)
                else not_disjoint_loop a b (i + 1)
           else Some (Inl OutOfBounds)
      else Some (Inr False))"

definition not_disjoint :: "bitset \<Rightarrow> bitset \<Rightarrow> (undefined_behaviour + bool) option" where
  "not_disjoint a b = not_disjoint_loop a b 0"

declare is_disjoint_loop.simps [code]
declare not_disjoint_loop.simps [code]

section \<open>Well-formed bitsets and their bits\<close>

text \<open>
  The representation invariant of a bitset: \<open>words\<close> is an array of exactly \<open>size\<close>
  words. \<open>bitset_create\<close> establishes it and \<open>bitset_set\<close> and \<open>bitset_fill\<close> keep
  it; see \<open>bitset_create_inv\<close>, \<open>bitset_set_inv\<close> and \<open>bitset_fill_inv\<close>. A bitset
  that \<open>bitset_create\<close> returns has at most \<open>2 ^ 26\<close> words, its argument being an
  \<open>unsigned\<close>; the struct itself allows any \<open>size_t\<close>.
\<close>

definition bitset_inv :: "bitset \<Rightarrow> bool" where
  "bitset_inv s = (length (words s) = unat (size' s))"

text \<open>The number of bits a bitset holds: word count times \<open>bits_per_word\<close>.\<close>

definition capacity :: "bitset \<Rightarrow> nat" where
  "capacity s = unat (size' s) * unat bits_per_word"

text \<open>
  The source has no accessor for a single bit. Bit \<open>k\<close> of a bitset is read off the
  representation the way \<open>bitset_set\<close> writes it: bit \<open>k mod bits_per_word\<close> of word
  \<open>k div bits_per_word\<close>. A position beyond the array holds no bit.
\<close>

definition test_bit :: "bitset \<Rightarrow> nat \<Rightarrow> bool" where
  "test_bit s k =
     (k div unat bits_per_word < length (words s) \<and>
      bit (words s ! (k div unat bits_per_word)) (k mod unat bits_per_word))"

section \<open>Sequences of calls\<close>

text \<open>
  The sequential calls \<open>set(b, i1); ...; set(b, in)\<close> that \<open>bitset_fill\<close> is compared
  with: each call works on the bitset the previous one left, and undefined behaviour in
  one call ends the sequence.
\<close>

fun set_seq :: "bitset \<Rightarrow> c_int list \<Rightarrow> undefined_behaviour + bitset" where
  "set_seq s [] = Inr s"
| "set_seq s (i # indices) =
     (case bitset_set s i of Inl e \<Rightarrow> Inl e | Inr s' \<Rightarrow> set_seq s' indices)"

text \<open>
  A client's calls of the two mutating operations on one bitset, run in order. A call is
  valid for a bitset when every index it passes is below the capacity and
  \<open>num_indices\<close> does not exceed the length of the index array.
\<close>

datatype call = Set_call unsigned | Fill_call "c_int list" unsigned

fun run_call :: "bitset \<Rightarrow> call \<Rightarrow> undefined_behaviour + bitset" where
  "run_call s (Set_call index) = bitset_set s index"
| "run_call s (Fill_call indices num_indices) = bitset_fill s indices num_indices"

fun run_calls :: "bitset \<Rightarrow> call list \<Rightarrow> undefined_behaviour + bitset" where
  "run_calls s [] = Inr s"
| "run_calls s (c # cs) =
     (case run_call s c of Inl e \<Rightarrow> Inl e | Inr s' \<Rightarrow> run_calls s' cs)"

fun valid_call :: "bitset \<Rightarrow> call \<Rightarrow> bool" where
  "valid_call s (Set_call index) = (unat index < capacity s)"
| "valid_call s (Fill_call indices num_indices) =
     (unat num_indices \<le> length indices \<and>
      list_all (\<lambda>i. unat i < capacity s) (take (unat num_indices) indices))"

declare bitset_fill_loop.simps [simp del]

section \<open>Machine arithmetic\<close>

text \<open>
  A counter below its bound can be incremented without wrapping, and an \<open>unsigned\<close>
  compared with a \<open>size_t\<close> keeps its value in the wider type.
\<close>

lemma unat_succ_less: "i < (n::'a::len word) \<Longrightarrow> unat (i + 1) = Suc (unat i)"
proof -
  assume "i < n"
  then have "Suc (unat i) \<le> unat n" by (simp add: word_less_nat_alt)
  also have "unat n < 2 ^ LENGTH('a)" by (rule unsigned_less)
  finally have "unat i + unat (1::'a word) < 2 ^ LENGTH('a)" by simp
  then have "unat (i + 1) = unat i + unat (1::'a word)" by (simp only: unat_add_lem [THEN iffD1])
  then show ?thesis by simp
qed

lemma unat_unsigned_less: "unat (n::unsigned) < 2 ^ 32"
  using unsigned_less [of n, where 'a = nat] by simp

lemma unat_ucast_unsigned: "unat (ucast (i::unsigned) :: size_t) = unat i"
proof -
  have "unat i < 2 ^ 32" using unsigned_less [of i, where 'a = nat] by simp
  then have "unat i < 2 ^ 64" by simp
  then have "take_bit 64 (unat i) = unat i" by (rule take_bit_nat_eq_self)
  then show ?thesis by (simp add: unsigned_ucast_eq)
qed

lemma ucast_less_size: "(ucast (i::unsigned) :: size_t) < sz \<longleftrightarrow> unat i < unat sz"
  by (simp add: word_less_nat_alt unat_ucast_unsigned)

lemma unat_bits_per_word: "unat bits_per_word = 64"
  by (simp add: bits_per_word_def sizeof_WORD_def)

lemma bits_per_word_eq: "bits_per_word = 64"
  by (simp add: bits_per_word_def sizeof_WORD_def)

section \<open>The word count in double precision\<close>

text \<open>
  A natural number below \<open>2 ^ 53\<close> divided by a power of two up to \<open>2 ^ 1074\<close> is
  a double. That covers every \<open>unsigned\<close> value and its quotient by 64, so neither the
  conversion nor the division in \<open>bitset_create\<close> rounds.
\<close>

text \<open>
  The test \<open>is_double\<close> is the textbook definition: \<open>q\<close> is \<open>m * 2 ^ e\<close> for an
  integer \<open>m\<close> of magnitude below \<open>2 ^ 53\<close> and an exponent \<open>e = j - 1074\<close> between
  \<open>- 1074\<close> and \<open>971\<close>.
\<close>

lemma is_double_iff:
  "is_double q \<longleftrightarrow> (\<exists>m j. \<bar>m\<bar> < 2 ^ 53 \<and> j \<le> 2045 \<and> q = of_int m * 2 ^ j / 2 ^ 1074)"
proof
  assume "is_double q"
  then obtain Z :: int where N: "q * 2 ^ 1074 = of_int Z"
    and L: "bitlen \<bar>Z\<bar> \<le> 2098"
    and D: "bitlen \<bar>Z\<bar> \<le> 53 \<or> 2 ^ nat (bitlen \<bar>Z\<bar> - 53) dvd \<bar>Z\<bar>"
    unfolding is_double_def Let_def by (metis (full_types))
  from N have q: "q = of_int Z / 2 ^ 1074" by (simp add: field_simps)
  show "\<exists>m j. \<bar>m\<bar> < 2 ^ 53 \<and> j \<le> 2045 \<and> q = of_int m * 2 ^ j / 2 ^ 1074"
  proof (cases "bitlen \<bar>Z\<bar> \<le> 53")
    case True
    then have "\<bar>Z\<bar> < 2 ^ 53" by (simp add: bitlen_le_iff_power)
    with q have "\<bar>Z\<bar> < 2 ^ 53 \<and> (0::nat) \<le> 2045 \<and> q = of_int Z * 2 ^ 0 / 2 ^ 1074" by simp
    then show ?thesis by blast
  next
    case False
    define k where "k = nat (bitlen \<bar>Z\<bar> - 53)"
    from False D have "2 ^ k dvd \<bar>Z\<bar>" by (simp add: k_def)
    then have "2 ^ k dvd Z" by simp
    then obtain m where Z: "Z = m * 2 ^ k" by (metis dvd_def mult.commute)
    have k: "k \<le> 2045" using L by (simp add: k_def)
    have "bitlen \<bar>Z\<bar> \<le> int (53 + k)" using False by (simp add: k_def)
    then have "\<bar>Z\<bar> < 2 ^ nat (int (53 + k))" by (simp only: bitlen_le_iff_power)
    then have "\<bar>Z\<bar> < 2 ^ (53 + k)" by (simp only: nat_int)
    then have "\<bar>m\<bar> * 2 ^ k < 2 ^ 53 * 2 ^ k" by (simp add: Z abs_mult power_add)
    then have "\<bar>m\<bar> < 2 ^ 53" by simp
    with k q Z show ?thesis by auto
  qed
next
  assume "\<exists>m j. \<bar>m\<bar> < 2 ^ 53 \<and> j \<le> 2045 \<and> q = of_int m * 2 ^ j / 2 ^ 1074"
  then obtain m :: int and j :: nat where m: "\<bar>m\<bar> < 2 ^ 53" and j: "j \<le> 2045"
    and q: "q = of_int m * 2 ^ j / 2 ^ 1074" by blast
  define Z where "Z = m * 2 ^ j"
  have N: "q * 2 ^ 1074 = of_int Z" by (simp add: q Z_def)
  have abs: "\<bar>Z\<bar> = \<bar>m\<bar> * 2 ^ j" by (simp add: Z_def abs_mult)
  have L: "bitlen \<bar>Z\<bar> \<le> 53 + int j"
  proof -
    have "\<bar>Z\<bar> < 2 ^ 53 * 2 ^ j" using m by (simp add: abs)
    then have "\<bar>Z\<bar> < 2 ^ nat (53 + int j)" by (simp add: nat_add_distrib power_add)
    then show ?thesis by (simp add: bitlen_le_iff_power)
  qed
  have D: "2 ^ nat (bitlen \<bar>Z\<bar> - 53) dvd \<bar>Z\<bar>"
  proof -
    have "nat (bitlen \<bar>Z\<bar> - 53) \<le> j" using L by simp
    then have "(2::int) ^ nat (bitlen \<bar>Z\<bar> - 53) dvd 2 ^ j" by (rule le_imp_power_dvd)
    then show ?thesis by (simp add: abs)
  qed
  have "bitlen \<bar>Z\<bar> \<le> 2098" using L j by simp
  with D show "is_double q"
    unfolding is_double_def N by (simp add: Let_def)
qed

lemma is_double_dyadic:
  assumes "n < 2 ^ 53" and "k \<le> 1074"
  shows "is_double (of_nat n / 2 ^ k)"
proof -
  define j where "j = 1074 - k"
  define M :: int where "M = int n * 2 ^ j"
  have k: "(1074::nat) = j + k" using assms(2) by (simp add: j_def)
  have N: "(of_nat n / 2 ^ k) * 2 ^ 1074 = (of_int M :: rat)"
    unfolding k by (simp add: M_def power_add)
  have M0: "0 \<le> M" by (simp add: M_def)
  have L: "bitlen M \<le> int j + 53"
  proof -
    have "int n < 2 ^ 53" using assms(1) by (metis of_nat_less_numeral_power_cancel_iff)
    then have "M < 2 ^ 53 * 2 ^ j" by (simp add: M_def)
    then have "M < 2 ^ nat (int j + 53)" by (simp add: nat_add_distrib power_add mult.commute)
    then show ?thesis by (simp add: bitlen_le_iff_power)
  qed
  have D: "2 ^ nat (bitlen M - 53) dvd M"
  proof -
    have "nat (bitlen M - 53) \<le> j" using L by simp
    then have "(2::int) ^ nat (bitlen M - 53) dvd 2 ^ j" by (rule le_imp_power_dvd)
    then show ?thesis by (simp add: M_def)
  qed
  have "bitlen M \<le> 2098" using L k by simp
  with D M0 show ?thesis
    unfolding is_double_def N by (simp add: Let_def)
qed

lemma double_of_unsigned_exact: "double_of_unsigned rnd n = Some (of_nat (unat n))"
proof -
  have "unat n < 2 ^ 53" using unat_unsigned_less [of n] by simp
  then have "is_double (of_nat (unat n) / 2 ^ 0)" by (rule is_double_dyadic) simp
  then show ?thesis by (simp add: double_of_unsigned_def fl_def)
qed

lemma quotient_exact:
  "double_div rnd (double_of_unsigned rnd n) (double_of_unsigned rnd bits_per_word)
     = Some (of_nat (unat n) / 64)"
proof -
  have "unat n < 2 ^ 53" using unat_unsigned_less [of n] by simp
  then have "is_double (of_nat (unat n) / 2 ^ 6)" by (rule is_double_dyadic) simp
  then have "is_double (of_nat (unat n) / 64)" by simp
  then show ?thesis
    by (simp add: double_div_def double_of_unsigned_exact unat_bits_per_word fl_def)
qed

lemma ceiling_div_64: "\<lceil>(of_nat m :: rat) / 64\<rceil> = int ((m + 63) div 64)"
proof -
  have "\<lceil>(of_int (int m) :: rat) / of_int 64\<rceil> = - (- int m div 64)"
    by (rule ceiling_divide_eq_div)
  also have "\<dots> = (int m + 63) div 64" by linarith
  also have "\<dots> = int ((m + 63) div 64)"
    by (simp only: of_nat_div of_nat_add of_nat_numeral)
  finally show ?thesis by simp
qed

lemma word_count_exact:
  "ceil (double_div rnd (double_of_unsigned rnd n) (double_of_unsigned rnd bits_per_word))
     = Some (of_nat ((unat n + 63) div 64))"
proof -
  have "of_int \<lceil>(of_nat (unat n) :: rat) / 64\<rceil> = (of_nat ((unat n + 63) div 64) :: rat)"
    by (simp only: ceiling_div_64 of_int_of_nat_eq)
  then show ?thesis by (simp only: quotient_exact ceil_def option.map)
qed

lemma word_count_bound: "(unat (n::unsigned) + 63) div 64 \<le> 2 ^ 26"
  using unat_unsigned_less [of n] by simp

lemma unat_word_count:
  "unat (of_nat ((unat (n::unsigned) + 63) div 64) :: size_t) = (unat n + 63) div 64"
proof -
  have "(unat n + 63) div 64 < 2 ^ LENGTH(64)" using word_count_bound [of n] by simp
  then show ?thesis by (simp only: unat_of_nat mod_less)
qed

lemma bitset_create_eq:
  "bitset_create rnd n =
     Inr \<lparr>words = replicate ((unat n + 63) div 64) 0, size' = of_nat ((unat n + 63) div 64)\<rparr>"
proof -
  let ?c = "(unat n + 63) div 64"
  have "(of_nat ?c :: rat) < 2 ^ 64"
  proof -
    have "?c < 2 ^ 64" using word_count_bound [of n] by simp
    then have "(of_nat ?c :: rat) < of_nat (2 ^ 64)" by (simp only: of_nat_less_iff)
    then show ?thesis by simp
  qed
  moreover have "- 1 < (of_nat ?c :: rat)" by (rule less_le_trans [of _ 0]) simp_all
  moreover have "\<not> (of_nat ?c :: rat) < 0" by simp
  ultimately have "size_t_of_double (Some (of_nat ?c)) = Inr (of_nat ?c)"
    by (simp add: size_t_of_double_def)
  then show ?thesis
    by (simp add: bitset_create_def word_count_exact calloc_def unat_word_count)
qed

lemma bitset_create_inv:
  assumes "bitset_create rnd num_bits = Inr s"
  shows "bitset_inv s" and "unat (size' s) \<le> 2 ^ 26"
  using assms word_count_bound [of num_bits]
  by (auto simp: bitset_create_eq bitset_inv_def unat_word_count)

section \<open>The disjointness loops\<close>

text \<open>
  On well-formed bitsets of equal size below \<open>2 ^ 32\<close> the loop of \<open>is_disjoint\<close>
  ends, and it returns whether every pair of words from the counter on has an empty
  intersection.
\<close>

lemma is_disjoint_loop_returns:
  assumes la: "length (words a) = unat (size' a)"
    and lb: "length (words b) = unat (size' a)"
    and bound: "unat (size' a) < 2 ^ 32"
  shows "is_disjoint_loop a b i =
    Some (Inr (\<forall>j. unat i \<le> j \<and> j < unat (size' a) \<longrightarrow> words a ! j AND words b ! j = 0))"
proof (induction "unat (size' a) - unat i" arbitrary: i)
  case 0
  then have "\<not> ucast i < size' a" by (simp add: ucast_less_size)
  moreover from 0 have "\<not> (\<exists>j. unat i \<le> j \<and> j < unat (size' a))" by auto
  ultimately show ?case by (subst is_disjoint_loop.simps) auto
next
  case (Suc d)
  then have less: "unat i < unat (size' a)" by simp
  then have cond: "ucast i < size' a" by (simp add: ucast_less_size)
  have "unat i + unat (1::unsigned) < 2 ^ LENGTH(32)" using less bound by simp
  then have "unat (i + 1) = unat i + unat (1::unsigned)" by (simp only: unat_add_lem [THEN iffD1])
  then have step: "unat (i + 1) = Suc (unat i)" by simp
  show ?case
  proof (cases "words a ! unat i AND words b ! unat i = 0")
    case True
    have "d = unat (size' a) - unat (i + 1)" using Suc(2) step by simp
    then have IH: "is_disjoint_loop a b (i + 1) =
      Some (Inr (\<forall>j. unat (i + 1) \<le> j \<and> j < unat (size' a) \<longrightarrow> words a ! j AND words b ! j = 0))"
      by (rule Suc(1))
    have "(\<forall>j. unat i \<le> j \<and> j < unat (size' a) \<longrightarrow> words a ! j AND words b ! j = 0)
      \<longleftrightarrow> (\<forall>j. Suc (unat i) \<le> j \<and> j < unat (size' a) \<longrightarrow> words a ! j AND words b ! j = 0)"
      using True by (metis Suc_leI le_neq_implies_less Suc_leD)
    with IH True cond less la lb step show ?thesis
      by (subst is_disjoint_loop.simps) simp
  next
    case False
    with less have "\<not> (\<forall>j. unat i \<le> j \<and> j < unat (size' a) \<longrightarrow> words a ! j AND words b ! j = 0)"
      by auto
    with False cond less la lb show ?thesis
      by (subst is_disjoint_loop.simps) simp
  qed
qed

text \<open>
  Whatever the bitsets, the two loops agree step for step: by fixpoint induction each
  result of one is matched by the other, with the answer negated. The same argument
  shows that swapping the arguments changes nothing when the sizes are equal.
\<close>

lemma not_loop_le:
  assumes H: "not_disjoint_loop a b i = Some r"
  shows "is_disjoint_loop a b i = Some (map_sum id Not r)"
proof (rule not_disjoint_loop.raw_induct
    [where P = "\<lambda>a b i r. is_disjoint_loop a b i = Some (map_sum id Not r)", OF _ H])
  fix loop a b i r
  assume IH: "\<And>a b i r. loop a b i = Some r \<Longrightarrow> is_disjoint_loop a b i = Some (map_sum id Not r)"
    and step: "(if ucast i < size' a
        then if unat i < length (words a) \<and> unat i < length (words b)
             then if words a ! unat i AND words b ! unat i \<noteq> 0
                  then Some (Inr True) else loop a b (i + 1)
             else Some (Inl OutOfBounds)
        else Some (Inr False)) = Some r"
  show "is_disjoint_loop a b i = Some (map_sum id Not r)"
  proof (cases "ucast i < size' a \<and> unat i < length (words a) \<and> unat i < length (words b)
      \<and> words a ! unat i AND words b ! unat i = 0")
    case True
    with step have "loop a b (i + 1) = Some r" by simp
    then have "is_disjoint_loop a b (i + 1) = Some (map_sum id Not r)" by (rule IH)
    with True show ?thesis by (subst is_disjoint_loop.simps) simp
  next
    case False
    with step show ?thesis by (subst is_disjoint_loop.simps) (auto split: if_splits)
  qed
qed

lemma is_loop_le:
  assumes H: "is_disjoint_loop a b i = Some r"
  shows "not_disjoint_loop a b i = Some (map_sum id Not r)"
proof (rule is_disjoint_loop.raw_induct
    [where P = "\<lambda>a b i r. not_disjoint_loop a b i = Some (map_sum id Not r)", OF _ H])
  fix loop a b i r
  assume IH: "\<And>a b i r. loop a b i = Some r \<Longrightarrow> not_disjoint_loop a b i = Some (map_sum id Not r)"
    and step: "(if ucast i < size' a
        then if unat i < length (words a) \<and> unat i < length (words b)
             then if words a ! unat i AND words b ! unat i \<noteq> 0
                  then Some (Inr False) else loop a b (i + 1)
             else Some (Inl OutOfBounds)
        else Some (Inr True)) = Some r"
  show "not_disjoint_loop a b i = Some (map_sum id Not r)"
  proof (cases "ucast i < size' a \<and> unat i < length (words a) \<and> unat i < length (words b)
      \<and> words a ! unat i AND words b ! unat i = 0")
    case True
    with step have "loop a b (i + 1) = Some r" by simp
    then have "not_disjoint_loop a b (i + 1) = Some (map_sum id Not r)" by (rule IH)
    with True show ?thesis by (subst not_disjoint_loop.simps) simp
  next
    case False
    with step show ?thesis by (subst not_disjoint_loop.simps) (auto split: if_splits)
  qed
qed

lemma not_loop_eq:
  "not_disjoint_loop a b i = map_option (map_sum id Not) (is_disjoint_loop a b i)"
proof (cases "is_disjoint_loop a b i")
  case None
  have "not_disjoint_loop a b i = None"
  proof (cases "not_disjoint_loop a b i")
    case (Some r)
    then have "is_disjoint_loop a b i = Some (map_sum id Not r)" by (rule not_loop_le)
    with None show ?thesis by simp
  qed simp
  with None show ?thesis by simp
next
  case (Some r)
  then show ?thesis by (simp add: is_loop_le)
qed

lemma is_loop_sym_le:
  assumes H: "is_disjoint_loop a b i = Some r"
  shows "size' a = size' b \<longrightarrow> is_disjoint_loop b a i = Some r"
proof (rule is_disjoint_loop.raw_induct
    [where P = "\<lambda>a b i r. size' a = size' b \<longrightarrow> is_disjoint_loop b a i = Some r", OF _ H])
  fix loop a b i r
  assume IH: "\<And>a b i r. loop a b i = Some r \<Longrightarrow> size' a = size' b \<longrightarrow> is_disjoint_loop b a i = Some r"
    and step: "(if ucast i < size' a
        then if unat i < length (words a) \<and> unat i < length (words b)
             then if words a ! unat i AND words b ! unat i \<noteq> 0
                  then Some (Inr False) else loop a b (i + 1)
             else Some (Inl OutOfBounds)
        else Some (Inr True)) = Some r"
  show "size' a = size' b \<longrightarrow> is_disjoint_loop b a i = Some r"
  proof
    assume eq: "size' a = size' b"
    show "is_disjoint_loop b a i = Some r"
    proof (cases "ucast i < size' a \<and> unat i < length (words a) \<and> unat i < length (words b)
        \<and> words a ! unat i AND words b ! unat i = 0")
      case True
      with step have "loop a b (i + 1) = Some r" by simp
      then have "is_disjoint_loop b a (i + 1) = Some r" using IH eq by blast
      with True eq show ?thesis by (subst is_disjoint_loop.simps) (simp add: and.commute)
    next
      case False
      with step eq show ?thesis
        by (subst is_disjoint_loop.simps) (auto split: if_splits simp: and.commute)
    qed
  qed
qed

lemma is_loop_sym:
  assumes "size' a = size' b"
  shows "is_disjoint_loop a b i = is_disjoint_loop b a i"
proof (cases "is_disjoint_loop a b i")
  case None
  have "is_disjoint_loop b a i = None"
  proof (cases "is_disjoint_loop b a i")
    case (Some r)
    then have "is_disjoint_loop a b i = Some r" using is_loop_sym_le [of b a i r] assms by simp
    with None show ?thesis by simp
  qed simp
  with None show ?thesis by simp
next
  case (Some r)
  then show ?thesis using assms is_loop_sym_le [of a b i r] by simp
qed

lemma is_disjoint_returns:
  assumes "bitset_inv a" and "bitset_inv b" and "size' a = size' b"
    and "unat (size' a) < 2 ^ 32"
  shows "is_disjoint a b =
    Some (Inr (\<forall>i<unat (size' a). words a ! i AND words b ! i = 0))"
proof -
  from assms have "length (words a) = unat (size' a)" "length (words b) = unat (size' a)"
    "unat (size' a) < 2 ^ 32"
    by (simp_all add: bitset_inv_def)
  then have "is_disjoint_loop a b 0 =
    Some (Inr (\<forall>j. unat (0::unsigned) \<le> j \<and> j < unat (size' a) \<longrightarrow> words a ! j AND words b ! j = 0))"
    by (rule is_disjoint_loop_returns)
  then show ?thesis by (simp add: is_disjoint_def)
qed

text \<open>
  With \<open>2 ^ 32\<close> words, all zero, the counter wraps to 0 before it reaches the bound and
  no pair of words ends the loop: no result is ever returned.
\<close>

lemma huge_loop_no_return:
  assumes H: "is_disjoint_loop a b i = Some r"
  shows "\<not> (a = \<lparr>words = replicate (2 ^ 32) 0, size' = 2 ^ 32\<rparr> \<and>
            b = \<lparr>words = replicate (2 ^ 32) 0, size' = 2 ^ 32\<rparr>)"
proof (rule is_disjoint_loop.raw_induct
    [where P = "\<lambda>a b i r. \<not> (a = \<lparr>words = replicate (2 ^ 32) 0, size' = 2 ^ 32\<rparr> \<and>
            b = \<lparr>words = replicate (2 ^ 32) 0, size' = 2 ^ 32\<rparr>)", OF _ H])
  fix loop :: "bitset \<Rightarrow> bitset \<Rightarrow> unsigned \<Rightarrow> (undefined_behaviour + bool) option"
    and a b :: bitset and i :: unsigned and r :: "undefined_behaviour + bool"
  assume IH: "\<And>a b i r. loop a b i = Some r \<Longrightarrow>
      \<not> (a = \<lparr>words = replicate (2 ^ 32) 0, size' = 2 ^ 32\<rparr> \<and>
         b = \<lparr>words = replicate (2 ^ 32) 0, size' = 2 ^ 32\<rparr>)"
    and step: "(if ucast i < size' a
        then if unat i < length (words a) \<and> unat i < length (words b)
             then if words a ! unat i AND words b ! unat i \<noteq> 0
                  then Some (Inr False) else loop a b (i + 1)
             else Some (Inl OutOfBounds)
        else Some (Inr True)) = Some r"
  show "\<not> (a = \<lparr>words = replicate (2 ^ 32) 0, size' = 2 ^ 32\<rparr> \<and>
         b = \<lparr>words = replicate (2 ^ 32) 0, size' = 2 ^ 32\<rparr>)"
  proof
    assume ab: "a = \<lparr>words = replicate (2 ^ 32) 0, size' = 2 ^ 32\<rparr> \<and>
         b = \<lparr>words = replicate (2 ^ 32) 0, size' = 2 ^ 32\<rparr>"
    have i: "unat i < 2 ^ 32" by (rule unat_unsigned_less)
    have sz: "unat (size' a) = 2 ^ 32" using ab by simp
    have c1: "ucast i < size' a" using i sz by (simp only: ucast_less_size)
    have la: "length (words a) = 2 ^ 32" "length (words b) = 2 ^ 32"
      using ab by (simp_all only: bitset.simps length_replicate)
    have wa: "words a ! unat i = 0" "words b ! unat i = 0"
      using ab i by (simp_all only: bitset.simps nth_replicate)
    from step c1 la wa i have "loop a b (i + 1) = Some r" by simp
    from IH [OF this] ab show False by blast
  qed
qed

lemma not_disjoint_eq: "not_disjoint a b = map_option (map_sum id Not) (is_disjoint a b)"
  by (simp add: not_disjoint_def is_disjoint_def not_loop_eq)

lemma is_disjoint_empty: "size' a = 0 \<Longrightarrow> is_disjoint a b = Some (Inr True)"
  unfolding is_disjoint_def by (subst is_disjoint_loop.simps) simp

section \<open>Single bits\<close>

lemma bitset_set_eq:
  "bitset_set s index =
     (if unat index div 64 < length (words s)
      then Inr (s\<lparr>words := (words s)[unat index div 64 :=
                   words s ! (unat index div 64) OR push_bit (unat index mod 64) 1]\<rparr>)
      else Inl OutOfBounds)"
  by (simp add: bitset_set_def Let_def bits_per_word_eq unat_div unat_mod)

lemma bit_mask: "bit ((2::WORD) ^ m) n \<longleftrightarrow> n = m \<and> m < 64"
  by (auto simp: bit_exp_iff)

lemma div_mod_eq_iff: "(k div 64 = j div 64 \<and> k mod 64 = j mod (64::nat)) \<longleftrightarrow> k = j"
  by (metis div_mult_mod_eq)

lemma test_bit_eq: "test_bit s k = (k div 64 < length (words s) \<and> bit (words s ! (k div 64)) (k mod 64))"
  by (simp add: test_bit_def unat_bits_per_word)

lemma test_bit_set:
  assumes "bitset_set s index = Inr s'"
  shows "test_bit s' k \<longleftrightarrow> test_bit s k \<or> k = unat index"
proof -
  let ?w = "unat index div 64"
  from assms have inr: "?w < length (words s)"
    and s': "s' = s\<lparr>words := (words s)[?w := words s ! ?w OR push_bit (unat index mod 64) 1]\<rparr>"
    by (auto simp: bitset_set_eq split: if_splits)
  show ?thesis
  proof (cases "k div 64 = ?w")
    case True
    have "k mod 64 = unat index mod 64 \<longleftrightarrow> k = unat index"
      using True div_mod_eq_iff [of k "unat index"] by simp
    with True inr show ?thesis
      by (auto simp: test_bit_eq s' bit_or_iff bit_mask)
  next
    case False
    then have "k \<noteq> unat index" by auto
    with False show ?thesis by (simp add: test_bit_eq s')
  qed
qed

lemma bitset_set_frame:
  assumes "bitset_set s index = Inr s'"
  shows "size' s' = size' s" and "length (words s') = length (words s)"
  using assms by (auto simp: bitset_set_eq split: if_splits)

lemma bitset_set_returns:
  assumes "bitset_inv s" and "unat index < capacity s"
  shows "\<exists>s'. bitset_set s index = Inr s'"
proof -
  from assms have "unat index div 64 < length (words s)"
    by (simp add: bitset_inv_def capacity_def unat_bits_per_word less_mult_imp_div_less)
  then show ?thesis by (simp add: bitset_set_eq)
qed

lemma bitset_set_inv:
  assumes "bitset_set s index = Inr s'"
  shows "bitset_inv s' = bitset_inv s" and "capacity s' = capacity s"
  using bitset_set_frame [OF assms] by (simp_all add: bitset_inv_def capacity_def)

lemma bitset_eqI:
  fixes s t :: bitset
  assumes "size' s = size' t" and "length (words s) = length (words t)"
    and "\<And>k. test_bit s k = test_bit t k"
  shows "s = t"
proof -
  have "words s = words t"
  proof (rule nth_equalityI)
    show "length (words s) = length (words t)" by (rule assms(2))
  next
    fix w assume w: "w < length (words s)"
    show "words s ! w = words t ! w"
    proof (rule bit_word_eqI)
      fix n assume "n < LENGTH(64)"
      then have n: "n < 64" by simp
      then have "(w * 64 + n) div 64 = w" and "(w * 64 + n) mod 64 = n" by simp_all
      with assms(3) [of "w * 64 + n"] w assms(2)
      show "bit (words s ! w) n = bit (words t ! w) n" by (simp add: test_bit_eq)
    qed
  qed
  with assms(1) show ?thesis by simp
qed

lemma word_and_zero_iff: "(x::WORD) AND y = 0 \<longleftrightarrow> (\<forall>n<64. \<not> (bit x n \<and> bit y n))"
proof
  assume "x AND y = 0"
  then have "\<not> bit (x AND y) n" for n by simp
  then show "\<forall>n<64. \<not> (bit x n \<and> bit y n)" by (simp add: bit_and_iff)
next
  assume H: "\<forall>n<64. \<not> (bit x n \<and> bit y n)"
  show "x AND y = 0"
  proof (rule bit_word_eqI)
    fix n assume "n < LENGTH(64)"
    with H show "bit (x AND y) n = bit (0::WORD) n" by (simp add: bit_and_iff)
  qed
qed

lemma disjoint_words_iff_bits:
  assumes "length (words a) = length (words b)"
  shows "(\<forall>i<length (words a). words a ! i AND words b ! i = 0)
    \<longleftrightarrow> (\<forall>k. \<not> (test_bit a k \<and> test_bit b k))"
proof
  assume H: "\<forall>i<length (words a). words a ! i AND words b ! i = 0"
  show "\<forall>k. \<not> (test_bit a k \<and> test_bit b k)"
  proof (intro allI notI)
    fix k assume k: "test_bit a k \<and> test_bit b k"
    then have "k div 64 < length (words a)" by (simp add: test_bit_eq)
    with H have "words a ! (k div 64) AND words b ! (k div 64) = 0" by simp
    then have "\<not> (bit (words a ! (k div 64)) (k mod 64) \<and> bit (words b ! (k div 64)) (k mod 64))"
      by (simp add: word_and_zero_iff)
    with k show False by (simp add: test_bit_eq)
  qed
next
  assume H: "\<forall>k. \<not> (test_bit a k \<and> test_bit b k)"
  show "\<forall>i<length (words a). words a ! i AND words b ! i = 0"
  proof (intro allI impI)
    fix i assume i: "i < length (words a)"
    have "\<not> (bit (words a ! i) n \<and> bit (words b ! i) n)" if "n < 64" for n
    proof -
      from that have "(i * 64 + n) div 64 = i" and "(i * 64 + n) mod 64 = n" by simp_all
      with H [rule_format, of "i * 64 + n"] i assms show ?thesis by (simp add: test_bit_eq)
    qed
    then show "words a ! i AND words b ! i = 0" by (simp add: word_and_zero_iff)
  qed
qed

section \<open>Filling and sequences of calls\<close>

lemma fill_loop_eq:
  assumes "unat num_indices \<le> length indices"
  shows "bitset_fill_loop s indices num_indices i =
    set_seq s (drop (unat i) (take (unat num_indices) indices))"
  using assms
proof (induction s indices num_indices i rule: bitset_fill_loop.induct)
  case (1 s indices num_indices i)
  show ?case
  proof (cases "i < num_indices")
    case False
    then have "unat num_indices \<le> unat i" by (simp add: word_less_nat_alt)
    with False show ?thesis by (subst bitset_fill_loop.simps) simp
  next
    case True
    then have less: "unat i < unat num_indices" by (simp add: word_less_nat_alt)
    with 1(2) have inr: "unat i < length indices" by simp
    from True have step: "unat (i + 1) = Suc (unat i)" by (rule unat_succ_less)
    have "unat i < length (take (unat num_indices) indices)" using less 1(2) by simp
    then have unfold: "drop (unat i) (take (unat num_indices) indices) =
      indices ! unat i # drop (Suc (unat i)) (take (unat num_indices) indices)"
      using less by (simp add: Cons_nth_drop_Suc [symmetric])
    show ?thesis
    proof (cases "bitset_set s (indices ! unat i)")
      case (Inl e)
      with True inr unfold show ?thesis by (subst bitset_fill_loop.simps) simp
    next
      case (Inr s')
      with True inr have "bitset_fill_loop s' indices num_indices (i + 1) =
        set_seq s' (drop (unat (i + 1)) (take (unat num_indices) indices))"
        using 1(1) 1(2) by simp
      with Inr True inr unfold step show ?thesis by (subst bitset_fill_loop.simps) simp
    qed
  qed
qed

lemma bitset_fill_eq:
  assumes "unat num_indices \<le> length indices"
  shows "bitset_fill s indices num_indices = set_seq s (take (unat num_indices) indices)"
  using fill_loop_eq [OF assms, of s 0] by (simp add: bitset_fill_def)

lemma set_seq_returns:
  assumes "bitset_inv s" and "\<forall>i\<in>set indices. unat i < capacity s"
  shows "\<exists>s'. set_seq s indices = Inr s' \<and> size' s' = size' s
    \<and> length (words s') = length (words s)
    \<and> (\<forall>k. test_bit s' k \<longleftrightarrow> test_bit s k \<or> k \<in> unat ` set indices)"
  using assms
proof (induction indices arbitrary: s)
  case Nil
  then show ?case by simp
next
  case (Cons i indices)
  from Cons.prems have "unat i < capacity s" by simp
  with Cons.prems(1) obtain s1 where s1: "bitset_set s i = Inr s1"
    using bitset_set_returns by blast
  have "bitset_inv s1" and cap: "capacity s1 = capacity s"
    using bitset_set_inv [OF s1] Cons.prems(1) by simp_all
  moreover have "\<forall>j\<in>set indices. unat j < capacity s1" using Cons.prems(2) cap by simp
  ultimately obtain s' where s': "set_seq s1 indices = Inr s'" "size' s' = size' s1"
    "length (words s') = length (words s1)"
    "\<forall>k. test_bit s' k \<longleftrightarrow> test_bit s1 k \<or> k \<in> unat ` set indices"
    using Cons.IH by blast
  have "\<forall>k. test_bit s' k \<longleftrightarrow> test_bit s k \<or> k \<in> unat ` set (i # indices)"
    using s'(4) test_bit_set [OF s1] by auto
  with s1 s'(1-3) bitset_set_frame [OF s1] show ?case by simp
qed

lemma bitset_fill_inv:
  assumes "bitset_inv s" and "unat num_indices \<le> length indices"
    and "\<forall>i\<in>set (take (unat num_indices) indices). unat i < capacity s"
    and "bitset_fill s indices num_indices = Inr s'"
  shows "bitset_inv s'"
proof -
  from assms(1,3) obtain t where "set_seq s (take (unat num_indices) indices) = Inr t"
    "size' t = size' s" "length (words t) = length (words s)"
    using set_seq_returns by blast
  with assms(1,2,4) show ?thesis by (simp add: bitset_fill_eq bitset_inv_def)
qed

lemma run_call_returns:
  assumes "bitset_inv s" and "valid_call s c"
  shows "\<exists>s'. run_call s c = Inr s' \<and> size' s' = size' s
    \<and> length (words s') = length (words s)
    \<and> (\<forall>k. test_bit s k \<longrightarrow> test_bit s' k)"
proof (cases c)
  case (Set_call index)
  with assms obtain s' where s': "bitset_set s index = Inr s'"
    using bitset_set_returns by auto
  with Set_call test_bit_set [OF s'] bitset_set_frame [OF s'] show ?thesis by simp
next
  case (Fill_call indices num_indices)
  with assms(2) have le: "unat num_indices \<le> length indices"
    and "\<forall>i\<in>set (take (unat num_indices) indices). unat i < capacity s"
    by (simp_all add: list_all_iff)
  with assms(1) obtain s' where "set_seq s (take (unat num_indices) indices) = Inr s'"
    "size' s' = size' s" "length (words s') = length (words s)"
    "\<forall>k. test_bit s' k \<longleftrightarrow> test_bit s k \<or> k \<in> unat ` set (take (unat num_indices) indices)"
    using set_seq_returns by blast
  with Fill_call le show ?thesis by (simp add: bitset_fill_eq)
qed

lemma run_calls_returns:
  assumes "bitset_inv s" and "list_all (valid_call s) cs"
  shows "\<exists>s'. run_calls s cs = Inr s' \<and> size' s' = size' s
    \<and> length (words s') = length (words s)
    \<and> (\<forall>k. test_bit s k \<longrightarrow> test_bit s' k)"
  using assms
proof (induction cs arbitrary: s)
  case Nil
  then show ?case by simp
next
  case (Cons c cs)
  then have "valid_call s c" by simp
  with Cons.prems(1) obtain s1 where s1: "run_call s c = Inr s1" "size' s1 = size' s"
    "length (words s1) = length (words s)" "\<forall>k. test_bit s k \<longrightarrow> test_bit s1 k"
    using run_call_returns by blast
  then have inv1: "bitset_inv s1" and cap: "capacity s1 = capacity s"
    using Cons.prems(1) by (simp_all add: bitset_inv_def capacity_def)
  have "valid_call s1 = valid_call s"
  proof (rule ext)
    fix c' show "valid_call s1 c' = valid_call s c'"
      by (cases c') (simp_all add: cap)
  qed
  with Cons.prems(2) have "list_all (valid_call s1) cs" by simp
  with inv1 obtain s' where "run_calls s1 cs = Inr s'" "size' s' = size' s1"
    "length (words s') = length (words s1)" "\<forall>k. test_bit s1 k \<longrightarrow> test_bit s' k"
    using Cons.IH by blast
  with s1 show ?case by simp
qed

section \<open>The demonstration in cbitsets.c\<close>

text \<open>
  The commented-out \<open>main\<close> of the source creates two bitsets of 100 bits, fills one
  with 1 to 9 and the other with 10, 11 and 12, and prints \<open>is_disjoint\<close> of the two:
  the model runs it to true. With 9, 10 and 11 in the second bitset it runs to false.
\<close>

lemma demonstration:
  "bitset_create rnd 100 = Inr \<lparr>words = [0, 0], size' = 2\<rparr>"
  "bitset_fill \<lparr>words = [0, 0], size' = 2\<rparr> [1, 2, 3, 4, 5, 6, 7, 8, 9] 9
     = Inr \<lparr>words = [1022, 0], size' = 2\<rparr>"
  "bitset_fill \<lparr>words = [0, 0], size' = 2\<rparr> [10, 11, 12] 3
     = Inr \<lparr>words = [7168, 0], size' = 2\<rparr>"
  "is_disjoint \<lparr>words = [1022, 0], size' = 2\<rparr> \<lparr>words = [7168, 0], size' = 2\<rparr>
     = Some (Inr True)"
  "bitset_fill \<lparr>words = [0, 0], size' = 2\<rparr> [9, 10, 11] 3
     = Inr \<lparr>words = [3584, 0], size' = 2\<rparr>"
  "is_disjoint \<lparr>words = [1022, 0], size' = 2\<rparr> \<lparr>words = [3584, 0], size' = 2\<rparr>
     = Some (Inr False)"
proof -
  have "(unat (100::unsigned) + 63) div 64 = Suc (Suc 0)" by simp
  then show "bitset_create rnd 100 = Inr \<lparr>words = [0, 0], size' = 2\<rparr>"
    by (simp only: bitset_create_eq replicate.simps) simp
qed (simp_all add: bitset_fill_def bitset_fill_loop.simps bitset_set_eq
    is_disjoint_def is_disjoint_loop.simps)

section \<open>The claims\<close>

text \<open>
  In the statements below \<open>Some (Inr r)\<close> says that a call returns \<open>r\<close>,
  \<open>Some (Inl e)\<close> that it runs into the undefined behaviour \<open>e\<close>, and \<open>None\<close>
  that it does not return; for the operations without a loop that can run forever the
  outcome is \<open>Inr\<close> or \<open>Inl\<close> alone. A bitset is well-formed when \<open>bitset_inv\<close>
  holds of it: its array has as many words as its size field says.
\<close>

text \<open>
  C1. \<open>is_disjoint\<close> and \<open>not_disjoint\<close> are each other's negation. For all
  arguments whatsoever the outcome of \<open>not_disjoint a b\<close> is the outcome of
  \<open>is_disjoint a b\<close> with the returned boolean negated. For well-formed bitsets with
  equal word counts below \<open>2 ^ 32\<close> both calls return, and the two answers are
  opposite. With zero words \<open>is_disjoint\<close> returns true and \<open>not_disjoint\<close> returns
  false.
\<close>

theorem is_disjoint_negates_not_disjoint:
  "not_disjoint a b = map_option (map_sum id Not) (is_disjoint a b) \<and>
   (bitset_inv a \<and> bitset_inv b \<and> size' a = size' b \<and> unat (size' a) < 2 ^ 32 \<longrightarrow>
      (\<exists>r. is_disjoint a b = Some (Inr r) \<and> not_disjoint a b = Some (Inr (\<not> r)))) \<and>
   (size' a = 0 \<longrightarrow>
      is_disjoint a b = Some (Inr True) \<and> not_disjoint a b = Some (Inr False))"
proof (intro conjI impI)
  show "not_disjoint a b = map_option (map_sum id Not) (is_disjoint a b)"
    by (rule not_disjoint_eq)
next
  assume "bitset_inv a \<and> bitset_inv b \<and> size' a = size' b \<and> unat (size' a) < 2 ^ 32"
  then have "is_disjoint a b = Some (Inr (\<forall>i<unat (size' a). words a ! i AND words b ! i = 0))"
    using is_disjoint_returns [of a b] by blast
  then show "\<exists>r. is_disjoint a b = Some (Inr r) \<and> not_disjoint a b = Some (Inr (\<not> r))"
    by (simp add: not_disjoint_eq)
next
  assume "size' a = 0"
  then show "is_disjoint a b = Some (Inr True)" by (rule is_disjoint_empty)
next
  assume "size' a = 0"
  then have "is_disjoint a b = Some (Inr True)" by (rule is_disjoint_empty)
  then show "not_disjoint a b = Some (Inr False)" by (simp add: not_disjoint_eq)
qed

theorem is_disjoint_negates_not_disjoint_witness:
  "bitset_inv \<lparr>words = [1, 2], size' = 2\<rparr> \<and> bitset_inv \<lparr>words = [2, 6], size' = 2\<rparr> \<and>
   size' \<lparr>words = [1, 2], size' = 2\<rparr> = size' \<lparr>words = [2, 6], size' = 2\<rparr> \<and>
   unat (size' \<lparr>words = [1, 2], size' = 2\<rparr>) < 2 ^ 32 \<and>
   is_disjoint \<lparr>words = [1, 2], size' = 2\<rparr> \<lparr>words = [2, 6], size' = 2\<rparr> = Some (Inr False) \<and>
   not_disjoint \<lparr>words = [1, 2], size' = 2\<rparr> \<lparr>words = [2, 6], size' = 2\<rparr> = Some (Inr True) \<and>
   size' \<lparr>words = [], size' = 0\<rparr> = 0 \<and>
   is_disjoint \<lparr>words = [], size' = 0\<rparr> \<lparr>words = [], size' = 0\<rparr> = Some (Inr True) \<and>
   not_disjoint \<lparr>words = [], size' = 0\<rparr> \<lparr>words = [], size' = 0\<rparr> = Some (Inr False)"
proof -
  let ?a = "\<lparr>words = [1, 2], size' = 2\<rparr>" and ?b = "\<lparr>words = [2, 6], size' = 2\<rparr>"
  let ?e = "\<lparr>words = [], size' = 0\<rparr> :: bitset"
  have inv: "bitset_inv ?a \<and> bitset_inv ?b \<and> size' ?a = size' ?b \<and> unat (size' ?a) < 2 ^ 32"
    by (simp add: bitset_inv_def)
  have val: "is_disjoint ?a ?b = Some (Inr False)"
    by (simp add: is_disjoint_def is_disjoint_loop.simps)
  from inv val is_disjoint_negates_not_disjoint [of ?a ?b]
  have "not_disjoint ?a ?b = Some (Inr True)" by simp
  moreover from is_disjoint_negates_not_disjoint [of ?e ?e]
  have "is_disjoint ?e ?e = Some (Inr True) \<and> not_disjoint ?e ?e = Some (Inr False)" by simp
  ultimately show ?thesis using inv val by simp
qed

text \<open>
  C2. For every \<open>num_bits\<close>, and whatever the rounding mode, \<open>bitset_create\<close>
  returns a bitset whose word count is the ceiling of \<open>num_bits / bits_per_word\<close>,
  whose array has that many words, all of them zero, so that every bit below
  \<open>num_bits\<close> reads as unset.
\<close>

theorem bitset_create_zeroed:
  "\<exists>s. bitset_create rnd num_bits = Inr s \<and>
     int (unat (size' s)) = \<lceil>(of_nat (unat num_bits) :: rat) / of_nat (unat bits_per_word)\<rceil> \<and>
     length (words s) = unat (size' s) \<and>
     (\<forall>w\<in>set (words s). w = 0) \<and>
     (\<forall>k<unat num_bits. \<not> test_bit s k)"
proof -
  let ?c = "(unat num_bits + 63) div 64"
  let ?s = "\<lparr>words = replicate ?c 0, size' = of_nat ?c\<rparr> :: bitset"
  have "bitset_create rnd num_bits = Inr ?s" by (rule bitset_create_eq)
  moreover have "int (unat (size' ?s))
      = \<lceil>(of_nat (unat num_bits) :: rat) / of_nat (unat bits_per_word)\<rceil>"
    by (simp only: unat_bits_per_word of_nat_numeral ceiling_div_64 unat_word_count
        bitset.simps)
  moreover have "length (words ?s) = unat (size' ?s)" by (simp add: unat_word_count)
  moreover have "\<forall>w\<in>set (words ?s). w = 0" by simp
  moreover have "\<forall>k<unat num_bits. \<not> test_bit ?s k" by (simp add: test_bit_eq)
  ultimately show ?thesis by blast
qed

theorem bitset_create_zeroed_witness:
  "\<exists>s. bitset_create (\<lambda>q. None) 100 = Inr s \<and> unat (size' s) = 2 \<and> words s = [0, 0] \<and>
     0 \<in> set (words s) \<and> (99::nat) < unat (100::unsigned) \<and> \<not> test_bit s 99"
proof -
  from bitset_create_zeroed [of "\<lambda>q. None" 100] obtain s where
    s: "bitset_create (\<lambda>q. None) 100 = Inr s"
    and sz: "int (unat (size' s)) = \<lceil>(of_nat (unat (100::unsigned)) :: rat) / of_nat (unat bits_per_word)\<rceil>"
    and len: "length (words s) = unat (size' s)"
    and zero: "\<forall>w\<in>set (words s). w = 0"
    and bits: "\<forall>k<unat (100::unsigned). \<not> test_bit s k"
    by blast
  from sz have "int (unat (size' s)) = int ((unat (100::unsigned) + 63) div 64)"
    by (simp only: unat_bits_per_word of_nat_numeral ceiling_div_64)
  then have "unat (size' s) = (unat (100::unsigned) + 63) div 64"
    by (simp only: of_nat_eq_iff)
  then have two: "unat (size' s) = 2" by simp
  with len have l2: "length (words s) = Suc (Suc 0)" by simp
  then obtain x y where xy: "words s = [x, y]"
    by (auto simp: length_Suc_conv)
  with zero have w: "words s = [0, 0]" by simp
  from bits have b: "\<not> test_bit s 99" by simp
  have "bitset_create (\<lambda>q. None) 100 = Inr s \<and> unat (size' s) = 2 \<and> words s = [0, 0] \<and>
     0 \<in> set (words s) \<and> (99::nat) < unat (100::unsigned) \<and> \<not> test_bit s 99"
    using s two w b by simp
  then show ?thesis by (rule exI)
qed

text \<open>
  C3, as stated for every pair of bitsets with equal word counts, fails where the word
  count does not fit the \<open>unsigned\<close> counter: two well-formed bitsets of \<open>2 ^ 32\<close> words,
  all zero, share no bit, and \<open>is_disjoint\<close> does not return true for them; it does not
  return.
\<close>

theorem is_disjoint_no_return_counterexample:
  "bitset_inv \<lparr>words = replicate (2 ^ 32) 0, size' = 2 ^ 32\<rparr> \<and>
   set (words \<lparr>words = replicate (2 ^ 32) 0, size' = 2 ^ 32\<rparr>) = {0} \<and>
   is_disjoint \<lparr>words = replicate (2 ^ 32) 0, size' = 2 ^ 32\<rparr>
     \<lparr>words = replicate (2 ^ 32) 0, size' = 2 ^ 32\<rparr> = None"
proof (intro conjI)
  show "bitset_inv \<lparr>words = replicate (2 ^ 32) 0, size' = 2 ^ 32\<rparr>"
    by (simp add: bitset_inv_def)
  have "(2::nat) ^ 32 \<noteq> 0" by simp
  then have "set (replicate (2 ^ 32) (0::WORD)) = {0}" by (rule set_replicate)
  then show "set (words \<lparr>words = replicate (2 ^ 32) 0, size' = 2 ^ 32\<rparr>) = {0}"
    by (simp only: bitset.simps)
  show "is_disjoint \<lparr>words = replicate (2 ^ 32) 0, size' = 2 ^ 32\<rparr>
     \<lparr>words = replicate (2 ^ 32) 0, size' = 2 ^ 32\<rparr> = None"
  proof (cases "is_disjoint_loop \<lparr>words = replicate (2 ^ 32) 0, size' = 2 ^ 32\<rparr>
     \<lparr>words = replicate (2 ^ 32) 0, size' = 2 ^ 32\<rparr> 0")
    case None
    then show ?thesis by (simp only: is_disjoint_def)
  next
    case (Some r)
    from huge_loop_no_return [OF this] show ?thesis by blast
  qed
qed

text \<open>
  C3, amended. For well-formed bitsets \<open>a\<close> and \<open>b\<close> with equal word counts below
  \<open>2 ^ 32\<close> (every bitset that \<open>bitset_create\<close> returns has at most \<open>2 ^ 26\<close> words),
  \<open>is_disjoint a b\<close> returns, and it returns true exactly when no bit position is set
  in both, which is exactly when \<open>a.words[i] & b.words[i]\<close> is zero for every word
  index \<open>i\<close> below the word count.
\<close>

theorem is_disjoint_iff_no_common_bit:
  assumes "bitset_inv a" and "bitset_inv b" and "size' a = size' b"
    and "unat (size' a) < 2 ^ 32"
  shows "\<exists>r. is_disjoint a b = Some (Inr r) \<and>
    (r \<longleftrightarrow> (\<forall>k. \<not> (test_bit a k \<and> test_bit b k))) \<and>
    (r \<longleftrightarrow> (\<forall>i<unat (size' a). words a ! i AND words b ! i = 0))"
proof -
  from assms have len: "length (words a) = unat (size' a)" "length (words a) = length (words b)"
    by (simp_all add: bitset_inv_def)
  have "(\<forall>i<unat (size' a). words a ! i AND words b ! i = 0)
      \<longleftrightarrow> (\<forall>k. \<not> (test_bit a k \<and> test_bit b k))"
    using disjoint_words_iff_bits [OF len(2)] len(1) by simp
  with is_disjoint_returns [OF assms] show ?thesis by simp
qed

theorem is_disjoint_iff_no_common_bit_witness:
  "bitset_inv \<lparr>words = [1, 2], size' = 2\<rparr> \<and> bitset_inv \<lparr>words = [2, 4], size' = 2\<rparr> \<and>
   bitset_inv \<lparr>words = [2, 6], size' = 2\<rparr> \<and>
   unat (size' \<lparr>words = [1, 2], size' = 2\<rparr>) < 2 ^ 32 \<and>
   is_disjoint \<lparr>words = [1, 2], size' = 2\<rparr> \<lparr>words = [2, 4], size' = 2\<rparr> = Some (Inr True) \<and>
   (\<forall>k. \<not> (test_bit \<lparr>words = [1, 2], size' = 2\<rparr> k \<and> test_bit \<lparr>words = [2, 4], size' = 2\<rparr> k)) \<and>
   is_disjoint \<lparr>words = [1, 2], size' = 2\<rparr> \<lparr>words = [2, 6], size' = 2\<rparr> = Some (Inr False) \<and>
   test_bit \<lparr>words = [1, 2], size' = 2\<rparr> 65 \<and> test_bit \<lparr>words = [2, 6], size' = 2\<rparr> 65"
proof -
  let ?a = "\<lparr>words = [1, 2], size' = 2\<rparr>" and ?b = "\<lparr>words = [2, 4], size' = 2\<rparr>"
  let ?c = "\<lparr>words = [2, 6], size' = 2\<rparr>"
  have inv: "bitset_inv ?a" "bitset_inv ?b" "bitset_inv ?c"
    by (simp_all add: bitset_inv_def)
  have small: "unat (size' ?a) < 2 ^ 32" by simp
  have ab: "is_disjoint ?a ?b = Some (Inr True)"
    by (simp add: is_disjoint_def is_disjoint_loop.simps)
  have ac: "is_disjoint ?a ?c = Some (Inr False)"
    by (simp add: is_disjoint_def is_disjoint_loop.simps)
  have "\<forall>k. \<not> (test_bit ?a k \<and> test_bit ?b k)"
    using is_disjoint_iff_no_common_bit [OF inv(1) inv(2) _ small] ab by simp
  moreover have "test_bit ?a 65" "test_bit ?c 65"
    by (simp_all add: test_bit_eq)
  ultimately show ?thesis using inv small ab ac by simp
qed

text \<open>
  C4. For a well-formed bitset \<open>b\<close> and an index below
  \<open>word_count * bits_per_word\<close>, \<open>bitset_set\<close> returns a bitset in which bit
  \<open>index\<close> is set and every other bit is as it was in \<open>b\<close>; the word count and
  the length of the array do not change.
\<close>

theorem bitset_set_sets_one_bit:
  assumes "bitset_inv b" and "unat index < capacity b"
  shows "\<exists>b'. bitset_set b index = Inr b' \<and> test_bit b' (unat index) \<and>
    (\<forall>k. k \<noteq> unat index \<longrightarrow> test_bit b' k = test_bit b k) \<and>
    size' b' = size' b \<and> length (words b') = length (words b)"
proof -
  from assms obtain b' where b': "bitset_set b index = Inr b'"
    using bitset_set_returns by blast
  with test_bit_set [OF b'] bitset_set_frame [OF b'] show ?thesis by simp
qed

theorem bitset_set_sets_one_bit_witness:
  "bitset_inv \<lparr>words = [5], size' = 1\<rparr> \<and> unat (63::unsigned) < capacity \<lparr>words = [5], size' = 1\<rparr> \<and>
   bitset_set \<lparr>words = [5], size' = 1\<rparr> 63 = Inr \<lparr>words = [0x8000000000000005], size' = 1\<rparr> \<and>
   test_bit \<lparr>words = [0x8000000000000005], size' = 1\<rparr> 63 \<and>
   (2::nat) \<noteq> unat (63::unsigned) \<and>
   test_bit \<lparr>words = [0x8000000000000005], size' = 1\<rparr> 2 = test_bit \<lparr>words = [5], size' = 1\<rparr> 2"
proof -
  let ?b = "\<lparr>words = [5], size' = 1\<rparr>"
  let ?b' = "\<lparr>words = [0x8000000000000005], size' = 1\<rparr>"
  have inv: "bitset_inv ?b" by (simp add: bitset_inv_def)
  have rng: "unat (63::unsigned) < capacity ?b" by (simp add: capacity_def unat_bits_per_word)
  have val: "bitset_set ?b 63 = Inr ?b'" by (simp add: bitset_set_eq)
  from bitset_set_sets_one_bit [OF inv rng] val
  have "test_bit ?b' 63 \<and> test_bit ?b' 2 = test_bit ?b 2" by simp
  with inv rng val show ?thesis by simp
qed

text \<open>
  C5. For a well-formed bitset \<open>b\<close> and \<open>n\<close> indices, all below the capacity,
  \<open>bitset_fill b indices n\<close> returns the bitset that the sequential calls
  \<open>set(b, i1); ...; set(b, in)\<close> leave, and filling with (or setting one by one) any
  permutation of the indices gives that same bitset.
\<close>

theorem bitset_fill_sequential_any_order:
  assumes "bitset_inv b" and "length indices = unat n"
    and "\<forall>i\<in>set indices. unat i < capacity b"
  shows "\<exists>b'. bitset_fill b indices n = Inr b' \<and> set_seq b indices = Inr b' \<and>
    (\<forall>indices'. mset indices' = mset indices \<longrightarrow>
        bitset_fill b indices' n = Inr b' \<and> set_seq b indices' = Inr b')"
proof -
  from assms(1,3) obtain b' where b': "set_seq b indices = Inr b'" "size' b' = size' b"
    "length (words b') = length (words b)"
    "\<forall>k. test_bit b' k \<longleftrightarrow> test_bit b k \<or> k \<in> unat ` set indices"
    using set_seq_returns by blast
  have fill: "bitset_fill b js n = set_seq b js" if "length js = unat n" for js
    using that bitset_fill_eq [of n js b] by simp
  have "set_seq b js = Inr b'" if perm: "mset js = mset indices" for js
  proof -
    from perm have same: "set js = set indices" by (rule mset_eq_setD)
    with assms(3) have "\<forall>i\<in>set js. unat i < capacity b" by simp
    with assms(1) obtain c where c: "set_seq b js = Inr c" "size' c = size' b"
      "length (words c) = length (words b)"
      "\<forall>k. test_bit c k \<longleftrightarrow> test_bit b k \<or> k \<in> unat ` set js"
      using set_seq_returns by blast
    have "c = b'"
      by (rule bitset_eqI) (simp_all add: c b' same)
    with c(1) show ?thesis by simp
  qed
  moreover have "length js = unat n" if "mset js = mset indices" for js
    using that assms(2) by (metis size_mset)
  ultimately show ?thesis using b'(1) fill assms(2) by auto
qed

theorem bitset_fill_sequential_any_order_witness:
  "bitset_inv \<lparr>words = [0, 0], size' = 2\<rparr> \<and> length [1, 65, 3 :: c_int] = unat (3::unsigned) \<and>
   list_all (\<lambda>i. unat i < capacity \<lparr>words = [0, 0], size' = 2\<rparr>) [1, 65, 3 :: c_int] \<and>
   mset [65, 3, 1 :: c_int] = mset [1, 65, 3] \<and>
   bitset_fill \<lparr>words = [0, 0], size' = 2\<rparr> [1, 65, 3] 3 = Inr \<lparr>words = [10, 2], size' = 2\<rparr> \<and>
   set_seq \<lparr>words = [0, 0], size' = 2\<rparr> [1, 65, 3] = Inr \<lparr>words = [10, 2], size' = 2\<rparr> \<and>
   bitset_fill \<lparr>words = [0, 0], size' = 2\<rparr> [65, 3, 1] 3 = Inr \<lparr>words = [10, 2], size' = 2\<rparr>"
proof -
  let ?b = "\<lparr>words = [0, 0], size' = 2\<rparr>" and ?b' = "\<lparr>words = [10, 2], size' = 2\<rparr>"
  have inv: "bitset_inv ?b" by (simp add: bitset_inv_def)
  have len: "length [1, 65, 3 :: c_int] = unat (3::unsigned)" by simp
  have rng: "\<forall>i\<in>set [1, 65, 3 :: c_int]. unat i < capacity ?b"
    by (simp add: capacity_def unat_bits_per_word)
  have perm: "mset [65, 3, 1 :: c_int] = mset [1, 65, 3]" by (simp add: add_mset_commute)
  have val: "set_seq ?b [1, 65, 3] = Inr ?b'" by (simp add: bitset_set_eq)
  from bitset_fill_sequential_any_order [OF inv len rng] val perm
  have "bitset_fill ?b [1, 65, 3] 3 = Inr ?b' \<and> bitset_fill ?b [65, 3, 1] 3 = Inr ?b'"
    by auto
  with inv len rng perm val show ?thesis by (simp add: list_all_iff)
qed

text \<open>
  C6. \<open>bitset_set\<close> is idempotent: for a well-formed bitset and an index below its
  capacity, a second call with the same index returns a bitset with the bits of the
  first call's result; the two are in fact the same bitset.
\<close>

theorem bitset_set_idempotent:
  assumes "bitset_inv b" and "unat index < capacity b"
  shows "\<exists>b' b''. bitset_set b index = Inr b' \<and> bitset_set b' index = Inr b'' \<and>
    (\<forall>k. test_bit b'' k = test_bit b' k) \<and> b'' = b'"
proof -
  from assms obtain b' where b': "bitset_set b index = Inr b'"
    using bitset_set_returns by blast
  have inv': "bitset_inv b'" and "capacity b' = capacity b"
    using bitset_set_inv [OF b'] assms(1) by simp_all
  with assms(2) obtain b'' where b'': "bitset_set b' index = Inr b''"
    using bitset_set_returns by metis
  have bits: "test_bit b'' k = test_bit b' k" for k
    using test_bit_set [OF b''] test_bit_set [OF b'] by auto
  have "b'' = b'"
  proof (rule bitset_eqI)
    show "size' b'' = size' b'" "length (words b'') = length (words b')"
      using bitset_set_frame [OF b''] by simp_all
    show "test_bit b'' k = test_bit b' k" for k by (rule bits)
  qed
  with b' b'' bits show ?thesis by simp
qed

theorem bitset_set_idempotent_witness:
  "bitset_inv \<lparr>words = [5, 0], size' = 2\<rparr> \<and>
   unat (70::unsigned) < capacity \<lparr>words = [5, 0], size' = 2\<rparr> \<and>
   bitset_set \<lparr>words = [5, 0], size' = 2\<rparr> 70 = Inr \<lparr>words = [5, 64], size' = 2\<rparr> \<and>
   bitset_set \<lparr>words = [5, 64], size' = 2\<rparr> 70 = Inr \<lparr>words = [5, 64], size' = 2\<rparr>"
proof -
  let ?b = "\<lparr>words = [5, 0], size' = 2\<rparr>" and ?b' = "\<lparr>words = [5, 64], size' = 2\<rparr>"
  have inv: "bitset_inv ?b" by (simp add: bitset_inv_def)
  have rng: "unat (70::unsigned) < capacity ?b" by (simp add: capacity_def unat_bits_per_word)
  have val: "bitset_set ?b 70 = Inr ?b'" by (simp add: bitset_set_eq)
  from bitset_set_idempotent [OF inv rng] val
  have "bitset_set ?b' 70 = Inr ?b'" by simp
  with inv rng val show ?thesis by simp
qed

text \<open>
  C7. \<open>is_disjoint\<close> is symmetric: with equal word counts \<open>is_disjoint a b\<close> and
  \<open>is_disjoint b a\<close> have the same outcome, whatever the bitsets, and for well-formed
  bitsets with fewer than \<open>2 ^ 32\<close> words that outcome is a returned boolean.
\<close>

theorem is_disjoint_symmetric:
  assumes "size' a = size' b"
  shows "is_disjoint a b = is_disjoint b a \<and>
    (bitset_inv a \<and> bitset_inv b \<and> unat (size' a) < 2 ^ 32 \<longrightarrow>
      (\<exists>r. is_disjoint a b = Some (Inr r) \<and> is_disjoint b a = Some (Inr r)))"
proof
  show sym: "is_disjoint a b = is_disjoint b a"
    using assms by (simp add: is_disjoint_def is_loop_sym)
  show "bitset_inv a \<and> bitset_inv b \<and> unat (size' a) < 2 ^ 32 \<longrightarrow>
      (\<exists>r. is_disjoint a b = Some (Inr r) \<and> is_disjoint b a = Some (Inr r))"
    using assms sym is_disjoint_returns [of a b] by auto
qed

theorem is_disjoint_symmetric_witness:
  "size' \<lparr>words = [1, 2], size' = 2\<rparr> = size' \<lparr>words = [2, 6], size' = 2\<rparr> \<and>
   bitset_inv \<lparr>words = [1, 2], size' = 2\<rparr> \<and> bitset_inv \<lparr>words = [2, 6], size' = 2\<rparr> \<and>
   unat (size' \<lparr>words = [1, 2], size' = 2\<rparr>) < 2 ^ 32 \<and>
   is_disjoint \<lparr>words = [1, 2], size' = 2\<rparr> \<lparr>words = [2, 6], size' = 2\<rparr> = Some (Inr False) \<and>
   is_disjoint \<lparr>words = [2, 6], size' = 2\<rparr> \<lparr>words = [1, 2], size' = 2\<rparr> = Some (Inr False)"
proof -
  let ?a = "\<lparr>words = [1, 2], size' = 2\<rparr>" and ?b = "\<lparr>words = [2, 6], size' = 2\<rparr>"
  have eq: "size' ?a = size' ?b" by simp
  have inv: "bitset_inv ?a \<and> bitset_inv ?b \<and> unat (size' ?a) < 2 ^ 32"
    by (simp add: bitset_inv_def)
  have val: "is_disjoint ?a ?b = Some (Inr False)"
    by (simp add: is_disjoint_def is_disjoint_loop.simps)
  from is_disjoint_symmetric [OF eq] val have "is_disjoint ?b ?a = Some (Inr False)" by simp
  with inv val show ?thesis by simp
qed

text \<open>
  C8. \<open>bitset_create 0\<close> returns the bitset with no words, and \<open>is_disjoint\<close> of
  two bitsets created that way returns true.
\<close>

theorem bitset_create_zero_empty:
  "\<exists>a b. bitset_create rnd 0 = Inr a \<and> bitset_create rnd' 0 = Inr b \<and>
     size' a = 0 \<and> words a = [] \<and> size' b = 0 \<and> words b = [] \<and>
     is_disjoint a b = Some (Inr True)"
proof -
  let ?e = "\<lparr>words = [], size' = 0\<rparr> :: bitset"
  have "bitset_create r 0 = Inr ?e" for r by (simp add: bitset_create_eq)
  moreover have "is_disjoint ?e ?e = Some (Inr True)" by (simp add: is_disjoint_empty)
  ultimately show ?thesis by simp
qed

theorem bitset_create_zero_empty_witness:
  "bitset_create (\<lambda>q. None) 0 = Inr \<lparr>words = [], size' = 0\<rparr> \<and>
   is_disjoint \<lparr>words = [], size' = 0\<rparr> \<lparr>words = [], size' = 0\<rparr> = Some (Inr True)"
proof -
  from bitset_create_zero_empty [of "\<lambda>q. None" "\<lambda>q. None"] obtain a b where
    "bitset_create (\<lambda>q. None) 0 = Inr a" "size' a = 0" "words a = []"
    "bitset_create (\<lambda>q. None) 0 = Inr b" "is_disjoint a b = Some (Inr True)"
    by blast
  then show ?thesis by (cases a) simp
qed

text \<open>
  C9. Bits are never cleared: after any sequence of valid \<open>bitset_set\<close> and
  \<open>bitset_fill\<close> calls on a well-formed bitset, every bit that was set before is still
  set. These two are the only operations that write to a bitset: \<open>bitset_create\<close>
  makes a new one, and \<open>is_disjoint\<close> and \<open>not_disjoint\<close> only read.
\<close>

theorem set_bits_stay_set:
  assumes "bitset_inv b" and "list_all (valid_call b) calls"
  shows "\<exists>b'. run_calls b calls = Inr b' \<and> (\<forall>k. test_bit b k \<longrightarrow> test_bit b' k)"
  using run_calls_returns [OF assms] by blast

theorem set_bits_stay_set_witness:
  "bitset_inv \<lparr>words = [4, 0], size' = 2\<rparr> \<and>
   list_all (valid_call \<lparr>words = [4, 0], size' = 2\<rparr>) [Set_call 64, Fill_call [1, 2, 127] 3] \<and>
   run_calls \<lparr>words = [4, 0], size' = 2\<rparr> [Set_call 64, Fill_call [1, 2, 127] 3]
     = Inr \<lparr>words = [6, 0x8000000000000001], size' = 2\<rparr> \<and>
   test_bit \<lparr>words = [4, 0], size' = 2\<rparr> 2 \<and>
   test_bit \<lparr>words = [6, 0x8000000000000001], size' = 2\<rparr> 2"
proof -
  let ?b = "\<lparr>words = [4, 0], size' = 2\<rparr>"
  let ?b' = "\<lparr>words = [6, 0x8000000000000001], size' = 2\<rparr>"
  let ?cs = "[Set_call 64, Fill_call [1, 2, 127] 3]"
  have inv: "bitset_inv ?b" by (simp add: bitset_inv_def)
  have ok: "list_all (valid_call ?b) ?cs" by (simp add: capacity_def unat_bits_per_word)
  have val: "run_calls ?b ?cs = Inr ?b'"
    by (simp add: bitset_set_eq bitset_fill_def bitset_fill_loop.simps)
  have before: "test_bit ?b 2" by (simp add: test_bit_eq)
  from set_bits_stay_set [OF inv ok] val before have "test_bit ?b' 2" by simp
  with inv ok val before show ?thesis by simp
qed

text \<open>
  C10. The word count computed in double precision,
  \<open>ceil((double)num_bits / bits_per_word)\<close>, is the integer ceiling
  \<open>(num_bits + bits_per_word - 1) div bits_per_word\<close> (in unbounded integers) for
  every \<open>unsigned\<close> \<open>num_bits\<close> and every rounding mode: the conversion and the
  quotient are exact. At \<open>num_bits = 0\<close> the result is 0.
\<close>

theorem word_count_is_integer_ceiling:
  "ceil (double_div rnd (double_of_unsigned rnd num_bits) (double_of_unsigned rnd bits_per_word))
     = Some (of_nat ((unat num_bits + unat bits_per_word - 1) div unat bits_per_word)) \<and>
   double_of_unsigned rnd num_bits = Some (of_nat (unat num_bits)) \<and>
   double_div rnd (double_of_unsigned rnd num_bits) (double_of_unsigned rnd bits_per_word)
     = Some (of_nat (unat num_bits) / of_nat (unat bits_per_word)) \<and>
   ceil (double_div rnd (double_of_unsigned rnd 0) (double_of_unsigned rnd bits_per_word))
     = Some 0"
proof (intro conjI)
  show "ceil (double_div rnd (double_of_unsigned rnd num_bits) (double_of_unsigned rnd bits_per_word))
     = Some (of_nat ((unat num_bits + unat bits_per_word - 1) div unat bits_per_word))"
    by (simp only: word_count_exact unat_bits_per_word) simp
  show "double_of_unsigned rnd num_bits = Some (of_nat (unat num_bits))"
    by (rule double_of_unsigned_exact)
  show "double_div rnd (double_of_unsigned rnd num_bits) (double_of_unsigned rnd bits_per_word)
     = Some (of_nat (unat num_bits) / of_nat (unat bits_per_word))"
    by (simp only: quotient_exact unat_bits_per_word of_nat_numeral)
  show "ceil (double_div rnd (double_of_unsigned rnd 0) (double_of_unsigned rnd bits_per_word))
     = Some 0"
    by (simp only: word_count_exact) simp
qed

theorem word_count_is_integer_ceiling_witness:
  "ceil (double_div (\<lambda>q. None) (double_of_unsigned (\<lambda>q. None) 4294967295)
      (double_of_unsigned (\<lambda>q. None) bits_per_word)) = Some 67108864 \<and>
   ceil (double_div (\<lambda>q. None) (double_of_unsigned (\<lambda>q. None) 65)
      (double_of_unsigned (\<lambda>q. None) bits_per_word)) = Some 2"
proof -
  note big = word_count_is_integer_ceiling [of "\<lambda>q. None" 4294967295, THEN conjunct1]
  note small = word_count_is_integer_ceiling [of "\<lambda>q. None" 65, THEN conjunct1]
  show ?thesis by (simp only: big small) (simp add: unat_bits_per_word)
qed

end
